theory Spec2Isabelle
  imports Complex_Main "HOL-Library.Log_Nat"
begin

section \<open>Data model\<close>

text \<open>
  The dataclass \<^verbatim>\<open>Message\<close> of \<^verbatim>\<open>atm_sim_py.py\<close>. A Python float is modelled
  by the real number it denotes; comparisons are exact, and every arithmetic operation
  rounds its exact result (section "Floating point"). The status is the string the source
  stores (\<^verbatim>\<open>"OK"\<close>, \<^verbatim>\<open>"WARN"\<close>, \<^verbatim>\<open>"BYE"\<close>), the timestamp the string
  \<^verbatim>\<open>now_iso()\<close> returned.
\<close>

record message =
  aircraft_id :: int
  latitude :: real
  longitude :: real
  altitude_ft :: real
  speed_kt :: real
  heading_deg :: real
  status :: string
  ts :: string

text \<open>\<^verbatim>\<open>validate\<close>: five range checks in the order of the source, each returning False early.\<close>

definition validate :: "message \<Rightarrow> bool" where
  "validate msg =
     (if \<not> (-90 \<le> latitude msg \<and> latitude msg \<le> 90) then False
      else if \<not> (-180 \<le> longitude msg \<and> longitude msg \<le> 180) then False
      else if \<not> (0 \<le> altitude_ft msg \<and> altitude_ft msg \<le> 60000) then False
      else if \<not> (0 \<le> speed_kt msg \<and> speed_kt msg \<le> 700) then False
      else if \<not> (0 \<le> heading_deg msg \<and> heading_deg msg \<le> 360) then False
      else True)"


section \<open>Configuration\<close>

text \<open>
  The class \<^verbatim>\<open>CONFIG\<close>. Only the fields that decide behaviour are kept: the durations
  (\<^verbatim>\<open>RUNTIME_SECONDS\<close>, \<^verbatim>\<open>MIN_SEND_MS\<close>, \<^verbatim>\<open>MAX_SEND_MS\<close>) only fix when
  tasks are scheduled, which the schedules below leave arbitrary, and
  \<^verbatim>\<open>PRINT_PROGRESS_EVERY\<close> only drives console output.
\<close>

record config =
  NUM_AIRCRAFT :: int
  LOG_CSV :: "string option"

definition CONFIG :: config where
  "CONFIG = \<lparr>NUM_AIRCRAFT = 5, LOG_CSV = Some ''atm_log.csv''\<rparr>"

section \<open>Floating point\<close>

text \<open>
  Python floats are IEEE 754 doubles. \<open>fl x\<close> is the double nearest to the real \<open>x\<close>,
  ties going to the even significand: \<open>expo x\<close> is the binary exponent of \<open>x\<close>, the
  significand has 53 bits, so the spacing of the doubles around \<open>x\<close> is \<open>2 powi (expo x - 52)\<close>.
  The exponent range is taken as unbounded (the program's values stay far from overflow
  and underflow). A float literal such as \<^verbatim>\<open>0.05\<close> denotes \<open>fl 0.05\<close>, and the sum,
  difference and product of two floats are \<open>fl\<close> of the exact result.
\<close>

definition expo :: "real \<Rightarrow> int" where
  "expo x = (if x = 0 then 0 else \<lfloor>log 2 \<bar>x\<bar>\<rfloor>)"

definition round_even :: "real \<Rightarrow> int" where
  "round_even t =
     (let n = \<lfloor>t\<rfloor>; d = t - of_int n
      in if d < 1 / 2 then n else if 1 / 2 < d then n + 1 else if even n then n else n + 1)"

definition fl :: "real \<Rightarrow> real" where
  "fl x =
     (if x = 0 then 0
      else of_int (round_even (x / 2 powi (expo x - 52))) * 2 powi (expo x - 52))"

text \<open>The reals that are doubles: an integer below \<open>2^53\<close> in magnitude times a power of two.\<close>

definition representable :: "real \<Rightarrow> bool" where
  "representable x = (\<exists>m p. \<bar>m\<bar> < 2 ^ 53 \<and> x = of_int m * 2 powi p)"

text \<open>
  C's \<^verbatim>\<open>fmod\<close> is exact and truncates the quotient towards zero. Python's
  \<^verbatim>\<open>x % y\<close> on floats (\<^verbatim>\<open>float_rem\<close>) takes \<^verbatim>\<open>mod = fmod(x, y)\<close> and, when
  \<^verbatim>\<open>mod\<close> is not zero and its sign differs from the sign of \<^verbatim>\<open>y\<close>, returns the float
  sum \<^verbatim>\<open>mod + y\<close>. The only divisor in the program is the literal 360, so the
  \<^verbatim>\<open>ZeroDivisionError\<close> of a zero divisor cannot arise.
\<close>

definition c_fmod :: "real \<Rightarrow> real \<Rightarrow> real" where
  "c_fmod x y = x - y * of_int (if 0 \<le> x / y then \<lfloor>x / y\<rfloor> else \<lceil>x / y\<rceil>)"

definition float_mod :: "real \<Rightarrow> real \<Rightarrow> real" where
  "float_mod x y =
     (let m = c_fmod x y
      in if m \<noteq> 0 then (if (y < 0) \<noteq> (m < 0) then fl (m + y) else m) else 0)"

section \<open>Aircraft task\<close>

text \<open>
  \<^verbatim>\<open>rng.uniform(a, b)\<close> is \<^verbatim>\<open>a + (b - a) * self.random()\<close>, and \<^verbatim>\<open>random()\<close>
  returns a float in [0,1). The seeded generator of a task is a fixed sequence of such
  values (\<open>rng\<close>), of which \<open>drawn\<close> have been consumed.
\<close>

definition uniform :: "real \<Rightarrow> real \<Rightarrow> real \<Rightarrow> real" where
  "uniform a b r = fl (a + fl (fl (b - a) * r))"

text \<open>
  Where a task stands: \<open>Ready\<close> at the loop test (at its start, or when its sleep has
  ended), \<open>PutData\<close> and \<open>PutBye\<close> suspended in \<^verbatim>\<open>q.put\<close> on a full queue with the
  message already built, \<open>Done\<close> returned.
\<close>

datatype aircraft_pc = Ready | PutData message | PutBye message | Done

record aircraft =
  ac_id :: int
  lat :: real
  lon :: real
  alt :: real
  spd :: real
  hdg :: real
  rng :: "nat \<Rightarrow> real"
  drawn :: nat
  pc :: aircraft_pc

text \<open>
  The lines before the loop: the generator seeded with the id, five initial draws. They
  touch only the task's own variables, so the model runs them when the task is created.
\<close>

definition aircraft_init :: "(int \<Rightarrow> nat \<Rightarrow> real) \<Rightarrow> int \<Rightarrow> aircraft" where
  "aircraft_init gen i =
     (let r = gen (i * 7331) in
      \<lparr>ac_id = i,
       lat = uniform (-60) 60 (r 0),
       lon = uniform (-120) 120 (r 1),
       alt = uniform 10000 39000 (r 2),
       spd = uniform 250 480 (r 3),
       hdg = uniform 0 360 (r 4),
       rng = r, drawn = 5, pc = Ready\<rparr>)"

text \<open>One pass of the loop body up to the message: the random walk and the status draw.\<close>

definition tick :: "aircraft \<Rightarrow> aircraft \<times> string" where
  "tick p =
     (let r = rng p; k = drawn p;
          lat' = fl (lat p + uniform (- fl 0.05) (fl 0.05) (r k));
          lon' = fl (lon p + uniform (- fl 0.05) (fl 0.05) (r (k + 1)));
          alt' = max 0 (min (fl (alt p + uniform (-400) 400 (r (k + 2)))) 60000);
          spd' = max 0 (min (fl (spd p + uniform (-10) 10 (r (k + 3)))) 700);
          hdg' = float_mod (fl (hdg p + uniform (-5) 5 (r (k + 4)))) 360;
          st = (if r (k + 5) < fl 0.02 then ''WARN'' else ''OK'')
      in (p\<lparr>lat := lat', lon := lon', alt := alt', spd := spd', hdg := hdg',
            drawn := k + 6\<rparr>, st))"

definition data_msg :: "aircraft \<Rightarrow> string \<Rightarrow> string \<Rightarrow> message" where
  "data_msg p st now =
     \<lparr>aircraft_id = ac_id p, latitude = lat p, longitude = lon p, altitude_ft = alt p,
      speed_kt = spd p, heading_deg = hdg p, status = st, ts = now\<rparr>"

definition bye_msg :: "int \<Rightarrow> string \<Rightarrow> message" where
  "bye_msg i now =
     \<lparr>aircraft_id = i, latitude = 0, longitude = 0, altitude_ft = 0, speed_kt = 0,
      heading_deg = 0, status = ''BYE'', ts = now\<rparr>"

text \<open>After \<^verbatim>\<open>q.put\<close> returns: the draw for the sleep, then back to the loop test.\<close>

definition after_put :: "aircraft \<Rightarrow> aircraft" where
  "after_put p = p\<lparr>drawn := drawn p + 1, pc := Ready\<rparr>"

text \<open>
  One scheduling of \<^verbatim>\<open>aircraft_task\<close>, from one suspension point to the next.
  \<open>now\<close> is what \<^verbatim>\<open>now_iso()\<close> returns, \<open>run\<close> is \<^verbatim>\<open>running.is_set()\<close>, \<open>full\<close>
  is \<^verbatim>\<open>q.full()\<close>. The result is the task's new state and the message it put, if any.
\<close>

definition aircraft_task :: "string \<Rightarrow> bool \<Rightarrow> bool \<Rightarrow> aircraft \<Rightarrow> aircraft \<times> message option" where
  "aircraft_task now run full p =
     (case pc p of
        Ready \<Rightarrow>
          if run then
            (let p' = fst (tick p); m = data_msg p' (snd (tick p)) now
             in if full then (p'\<lparr>pc := PutData m\<rparr>, None) else (after_put p', Some m))
          else
            (let m = bye_msg (ac_id p) now
             in if full then (p\<lparr>pc := PutBye m\<rparr>, None) else (p\<lparr>pc := Done\<rparr>, Some m))
      | PutData m \<Rightarrow> if full then (p, None) else (after_put p, Some m)
      | PutBye m \<Rightarrow> if full then (p, None) else (p\<lparr>pc := Done\<rparr>, Some m)
      | Done \<Rightarrow> (p, None))"

section \<open>Control tower\<close>

text \<open>
  The fields of \<^verbatim>\<open>ControlTower\<close>. \<open>writer\<close> is None when no CSV path was given, and
  otherwise the rows written after the header, each a message with its \<^verbatim>\<open>valid\<close> flag.
\<close>

record control_tower =
  csv_path :: "string option"
  processed :: int
  rejected :: int
  byes :: int
  writer :: "(message \<times> int) list option"

definition tower_new :: "string option \<Rightarrow> control_tower" where
  "tower_new path = \<lparr>csv_path = path, processed = 0, rejected = 0, byes = 0, writer = None\<rparr>"

datatype error = OSError

text \<open>
  \<^verbatim>\<open>__aenter__\<close>: with a non-empty path the file is opened, which can raise
  (\<open>open_ok\<close> says whether it succeeds), and the header is written.
\<close>

definition tower_aenter :: "bool \<Rightarrow> control_tower \<Rightarrow> error + control_tower" where
  "tower_aenter open_ok t =
     (case csv_path t of
        None \<Rightarrow> Inr t
      | Some path \<Rightarrow>
          if path = [] then Inr t
          else if open_ok then Inr (t\<lparr>writer := Some []\<rparr>)
          else Inl OSError)"

text \<open>The body of the loop of \<^verbatim>\<open>run\<close> once a message has been popped.\<close>

definition on_message :: "control_tower \<Rightarrow> message \<Rightarrow> control_tower" where
  "on_message t msg =
     (if status msg = ''BYE'' then t\<lparr>byes := byes t + 1\<rparr>
      else
        (let is_valid = validate msg;
             t' = (if is_valid then t\<lparr>processed := processed t + 1\<rparr>
                   else t\<lparr>rejected := rejected t + 1\<rparr>)
         in case writer t' of
              None \<Rightarrow> t'
            | Some rows \<Rightarrow> t'\<lparr>writer := Some (rows @ [(msg, if is_valid then 1 else 0)])\<rparr>))"

section \<open>The running system\<close>

text \<open>
  The event \<open>running\<close> (\<^verbatim>\<open>stop_event\<close>: set while the simulation runs, cleared to ask
  for the stop), the queue with its \<^verbatim>\<open>maxsize\<close>, the aircraft tasks, the tower and
  where its \<^verbatim>\<open>run\<close> stands, and the \<^verbatim>\<open>num_aircraft\<close> passed to \<^verbatim>\<open>run\<close>.
  \<open>killed\<close> records \<^verbatim>\<open>sys.exit(1)\<close>. \<open>sent\<close> is a history variable, written and
  never read by the program: every message put on the queue so far, in order.

  The tasks are asyncio coroutines: one runs at a time and gives way only at an
  \<^verbatim>\<open>await\<close> that suspends (\<^verbatim>\<open>q.put\<close> on a full queue, \<^verbatim>\<open>asyncio.sleep\<close>,
  \<^verbatim>\<open>wait_for\<close>). The model lets the tower give way between its loop test and its
  pop as well, which only adds interleavings. The queue is first-in first-out; a pop
  either takes the head of the queue or times out and takes nothing. What is printed to
  the console is left out.
\<close>

datatype tower_pc = NotStarted | LoopTest | Waiting | Exited

record system =
  running :: bool
  killed :: bool
  queue :: "message list"
  maxsize :: nat
  planes :: "aircraft list"
  twr :: control_tower
  tpc :: tower_pc
  num_aircraft :: int
  sent :: "message list"

text \<open>\<^verbatim>\<open>asyncio.Queue.full()\<close>: a queue with \<^verbatim>\<open>maxsize <= 0\<close> is never full.\<close>

definition queue_full :: "system \<Rightarrow> bool" where
  "queue_full s = (0 < maxsize s \<and> maxsize s \<le> length (queue s))"

text \<open>
  What the event loop can do next: resume aircraft task number \<open>i\<close> (with the timestamp
  it would read), resume the tower, let the tower's \<^verbatim>\<open>wait_for\<close> time out, or deliver
  SIGINT or SIGTERM.
\<close>

datatype event = Plane nat string | Poll | PopTimeout | Interrupt

definition plane_step :: "nat \<Rightarrow> string \<Rightarrow> system \<Rightarrow> system" where
  "plane_step i now s =
     (if i < length (planes s) then
        (let r = aircraft_task now (running s) (queue_full s) (planes s ! i);
             out = (case snd r of None \<Rightarrow> [] | Some m \<Rightarrow> [m])
         in s\<lparr>planes := (planes s)[i := fst r], queue := queue s @ out, sent := sent s @ out\<rparr>)
      else s)"

text \<open>
  \<^verbatim>\<open>ControlTower.run\<close>, resumed: at the loop test it either leaves the loop or goes to
  wait in \<^verbatim>\<open>wait_for(self.q.get(), timeout=0.5)\<close>; waiting, it pops the head of the
  queue, if there is one, handles it and is back at the loop test.
\<close>

definition tower_poll :: "system \<Rightarrow> system" where
  "tower_poll s =
     (case tpc s of
        NotStarted \<Rightarrow> s
      | LoopTest \<Rightarrow>
          if running s \<or> byes (twr s) < num_aircraft s then s\<lparr>tpc := Waiting\<rparr>
          else s\<lparr>tpc := Exited\<rparr>
      | Waiting \<Rightarrow>
          (case queue s of
             [] \<Rightarrow> s
           | msg # rest \<Rightarrow> s\<lparr>queue := rest, twr := on_message (twr s) msg, tpc := LoopTest\<rparr>)
      | Exited \<Rightarrow> s)"

text \<open>\<^verbatim>\<open>except asyncio.TimeoutError: continue\<close>.\<close>

definition pop_timeout :: "system \<Rightarrow> system" where
  "pop_timeout s = (if tpc s = Waiting then s\<lparr>tpc := LoopTest\<rparr> else s)"

definition handle_sig :: "system \<Rightarrow> system" where
  "handle_sig s = (if running s then s\<lparr>running := False\<rparr> else s\<lparr>killed := True\<rparr>)"

definition step :: "event \<Rightarrow> system \<Rightarrow> system" where
  "step e s =
     (if killed s then s
      else case e of
        Plane i now \<Rightarrow> plane_step i now s
      | Poll \<Rightarrow> tower_poll s
      | PopTimeout \<Rightarrow> pop_timeout s
      | Interrupt \<Rightarrow> handle_sig s)"

definition exec :: "event list \<Rightarrow> system \<Rightarrow> system" where
  "exec evs s = fold step evs s"

section \<open>Orchestrator\<close>

text \<open>
  \<^verbatim>\<open>main\<close> up to the \<^verbatim>\<open>async with\<close>: the event set, the queue of size 1000, one task
  per \<^verbatim>\<open>i in range(NUM_AIRCRAFT)\<close> with id \<open>i + 1\<close>, and the tower object.
\<close>

definition spawn :: "config \<Rightarrow> (int \<Rightarrow> nat \<Rightarrow> real) \<Rightarrow> system" where
  "spawn cfg gen =
     \<lparr>running = True, killed = False, queue = [], maxsize = 1000,
      planes = map (\<lambda>i. aircraft_init gen (int i + 1)) [0..<nat (NUM_AIRCRAFT cfg)],
      twr = tower_new (LOG_CSV cfg), tpc = NotStarted,
      num_aircraft = NUM_AIRCRAFT cfg, sent = []\<rparr>"

text \<open>
  \<^verbatim>\<open>await asyncio.sleep(RUNTIME_SECONDS)\<close> inside the \<^verbatim>\<open>async with\<close>: the other tasks
  run as the schedule \<open>window\<close> says.
\<close>

definition after_window :: "config \<Rightarrow> (int \<Rightarrow> nat \<Rightarrow> real) \<Rightarrow> control_tower \<Rightarrow> event list \<Rightarrow> system" where
  "after_window cfg gen t window = exec window ((spawn cfg gen)\<lparr>twr := t\<rparr>)"

text \<open>The \<^verbatim>\<open>finally\<close> block: \<^verbatim>\<open>stop_event.clear()\<close>, then \<^verbatim>\<open>tower.run\<close> is entered.\<close>

definition start_drain :: "system \<Rightarrow> system" where
  "start_drain s = s\<lparr>running := False, tpc := LoopTest\<rparr>"

definition after_drain :: "config \<Rightarrow> (int \<Rightarrow> nat \<Rightarrow> real) \<Rightarrow> control_tower \<Rightarrow> event list \<Rightarrow> event list \<Rightarrow> system" where
  "after_drain cfg gen t window drain = exec drain (start_drain (after_window cfg gen t window))"

text \<open>
  How a run of \<^verbatim>\<open>main\<close> ends: the log could not be opened (the exception leaves
  \<^verbatim>\<open>main\<close>), the process was told to exit by a second signal, the schedule ended with
  the tower still in its loop or a task still to join in \<^verbatim>\<open>asyncio.gather\<close>, or
  \<^verbatim>\<open>main\<close> returned. Between creating the tasks and \<^verbatim>\<open>__aenter__\<close> there is no
  suspension, so no task has run when the log is opened.
\<close>

datatype outcome = LogOpenFailed | ForcedExit | StillRunning | Complete

definition main :: "config \<Rightarrow> (int \<Rightarrow> nat \<Rightarrow> real) \<Rightarrow> bool \<Rightarrow> event list \<Rightarrow> event list \<Rightarrow> outcome \<times> system" where
  "main cfg gen open_ok window drain =
     (let s0 = spawn cfg gen in
      case tower_aenter open_ok (twr s0) of
        Inl err \<Rightarrow> (LogOpenFailed, s0)
      | Inr t \<Rightarrow>
          (let s1 = after_window cfg gen t window in
           if killed s1 then (ForcedExit, s1)
           else
             (let s2 = after_drain cfg gen t window drain in
              if killed s2 then (ForcedExit, s2)
              else if tpc s2 = Exited \<and> list_all (\<lambda>p. pc p = Done) (planes s2)
                then (Complete, s2)
              else (StillRunning, s2))))"

text \<open>
  Generators and a configuration for examples: every draw one half; every draw zero
  except the tenth, the heading draw of a task's first pass of the loop, which is the
  float just below one half; a single aircraft.
\<close>

definition gen_half :: "int \<Rightarrow> nat \<Rightarrow> real" where
  "gen_half seed k = 1 / 2"

definition gen_edge :: "int \<Rightarrow> nat \<Rightarrow> real" where
  "gen_edge seed k = (if k = 9 then 1 / 2 - 1 / 2 ^ 53 else 0)"

definition one_aircraft :: config where
  "one_aircraft = \<lparr>NUM_AIRCRAFT = 1, LOG_CSV = Some ''atm_log.csv''\<rparr>"

text \<open>
  An example run with one aircraft: during the window the aircraft sends one data
  message; after the stop it sends its BYE, and the tower tests its loop, pops the data
  message, tests, pops the BYE, tests and leaves. \<open>ex_drain_open\<close> stops before the last
  test.
\<close>

definition ex_window :: "event list" where
  "ex_window = [Plane 0 ''t1'']"

definition ex_drain_open :: "event list" where
  "ex_drain_open = [Plane 0 ''t2'', Poll, Poll, Poll, Poll]"

definition ex_drain :: "event list" where
  "ex_drain = ex_drain_open @ [Poll]"

definition ex_run :: system where
  "ex_run = snd (main one_aircraft gen_half True ex_window ex_drain)"

text \<open>
  For the default configuration: the tower as \<^verbatim>\<open>__aenter__\<close> leaves it, and a runtime
  window in which the first aircraft sends a message and the tower is offered two turns.
\<close>

definition ex_tower :: control_tower where
  "ex_tower = (tower_new (LOG_CSV CONFIG))\<lparr>writer := Some []\<rparr>"


section \<open>Vocabulary of the properties\<close>

definition is_bye :: "message \<Rightarrow> bool" where
  "is_bye m = (status m = ''BYE'')"

definition is_data :: "message \<Rightarrow> bool" where
  "is_data m = (status m = ''OK'' \<or> status m = ''WARN'')"

definition zero_fields :: "message \<Rightarrow> bool" where
  "zero_fields m =
     (latitude m = 0 \<and> longitude m = 0 \<and> altitude_ft m = 0 \<and> speed_kt m = 0 \<and>
      heading_deg m = 0)"

text \<open>The ranges the random walk stays in, all closed.\<close>

definition walk_bounded :: "message \<Rightarrow> bool" where
  "walk_bounded m =
     (0 \<le> altitude_ft m \<and> altitude_ft m \<le> 60000 \<and> 0 \<le> speed_kt m \<and> speed_kt m \<le> 700 \<and>
      0 \<le> heading_deg m \<and> heading_deg m \<le> 360)"

text \<open>What aircraft \<open>i\<close> has put on the queue so far, and what the tower has popped.\<close>

definition emitted :: "system \<Rightarrow> int \<Rightarrow> message list" where
  "emitted s i = filter (\<lambda>m. aircraft_id m = i) (sent s)"

definition popped :: "system \<Rightarrow> message list" where
  "popped s = take (length (sent s) - length (queue s)) (sent s)"

text \<open>A message a task holds while suspended in \<^verbatim>\<open>q.put\<close> is one it built itself.\<close>

definition pc_ok :: "aircraft \<Rightarrow> bool" where
  "pc_ok p =
     (case pc p of
        PutData m \<Rightarrow> is_data m \<and> aircraft_id m = ac_id p \<and> walk_bounded m
      | PutBye m \<Rightarrow> is_bye m \<and> aircraft_id m = ac_id p \<and> zero_fields m
      | _ \<Rightarrow> True)"

text \<open>
  What one scheduling of a task does to it and to the queue: it keeps its id, and either
  puts nothing, or puts a data message and is back at the loop test, or puts its BYE and
  has returned.
\<close>

definition put_outcome :: "aircraft \<Rightarrow> aircraft \<Rightarrow> message list \<Rightarrow> bool" where
  "put_outcome p p' out =
     (ac_id p' = ac_id p \<and> pc_ok p' \<and>
      ((out = [] \<and> (pc p' = Done) = (pc p = Done)) \<or>
       (\<exists>m. out = [m] \<and> aircraft_id m = ac_id p \<and> pc p \<noteq> Done \<and>
          ((is_data m \<and> walk_bounded m \<and> pc p' = Ready) \<or>
           (is_bye m \<and> zero_fields m \<and> pc p' = Done)))))"

text \<open>
  The invariant of the running system: the tasks keep the ids \<open>1..N\<close> and there are as
  many as \<^verbatim>\<open>run\<close> was told; every message sent is a data message within the clamped
  ranges or a BYE with zeroed fields, and comes from one of the tasks; the queue is what
  was sent and not yet popped; the tower's counters count what was popped; a task has
  sent a BYE exactly when it has returned, and then it was its last message; the loop of
  \<^verbatim>\<open>run\<close> is left only with the event cleared and enough BYEs counted.
\<close>

definition inv_tasks :: "system \<Rightarrow> bool" where
  "inv_tasks s =
     (length (planes s) = nat (num_aircraft s) \<and>
      (\<forall>i < length (planes s). ac_id (planes s ! i) = int i + 1 \<and> pc_ok (planes s ! i)))"

definition inv_sent :: "system \<Rightarrow> bool" where
  "inv_sent s =
     (\<forall>m \<in> set (sent s).
        (\<exists>i < length (planes s). aircraft_id m = int i + 1) \<and>
        ((is_data m \<and> walk_bounded m) \<or> (is_bye m \<and> zero_fields m)))"

definition inv_queue :: "system \<Rightarrow> bool" where
  "inv_queue s =
     (sent s = popped s @ queue s \<and>
      byes (twr s) = int (length (filter is_bye (popped s))) \<and>
      processed (twr s) + rejected (twr s) = int (length (filter is_data (popped s))) \<and>
      0 \<le> processed (twr s) \<and> 0 \<le> rejected (twr s))"

definition inv_emitted :: "system \<Rightarrow> bool" where
  "inv_emitted s =
     (length (filter is_bye (sent s)) = length (filter (\<lambda>p. pc p = Done) (planes s)) \<and>
      (\<forall>i < length (planes s).
         (\<forall>m \<in> set (butlast (emitted s (int i + 1))). is_data m) \<and>
         (if pc (planes s ! i) = Done
          then emitted s (int i + 1) \<noteq> [] \<and> is_bye (last (emitted s (int i + 1)))
          else \<forall>m \<in> set (emitted s (int i + 1)). is_data m)))"

definition inv_exit :: "system \<Rightarrow> bool" where
  "inv_exit s = (tpc s = Exited \<longrightarrow> \<not> running s \<and> num_aircraft s \<le> byes (twr s))"

definition sys_inv :: "system \<Rightarrow> bool" where
  "sys_inv s = (inv_tasks s \<and> inv_sent s \<and> inv_queue s \<and> inv_emitted s \<and> inv_exit s)"

section \<open>Properties of the rounding\<close>

text \<open>The exponent brackets the magnitude; it decides the spacing of the doubles.\<close>

lemma expo_bounds:
  assumes "x \<noteq> 0"
  shows "2 powi expo x \<le> \<bar>x\<bar>" and "\<bar>x\<bar> < 2 powi (expo x + 1)"
proof -
  have "0 < \<bar>x\<bar>" using assms by simp
  from floor_log_eq_powr_iff [OF this, of 2 "expo x"]
  have "2 powr (of_int (expo x)) \<le> \<bar>x\<bar> \<and> \<bar>x\<bar> < 2 powr (of_int (expo x) + 1)"
    using assms by (simp add: expo_def)
  moreover have "(2::real) powr (of_int (expo x) + 1) = 2 powr (of_int (expo x + 1))" by simp
  ultimately show "2 powi expo x \<le> \<bar>x\<bar>" and "\<bar>x\<bar> < 2 powi (expo x + 1)"
    by (simp_all only: powr_real_of_int' [of 2, simplified])
qed

lemma expo_eqI:
  assumes "2 powi k \<le> \<bar>x\<bar>" and "\<bar>x\<bar> < 2 powi (k + 1)"
  shows "expo x = k"
proof -
  have pos: "0 < \<bar>x\<bar>" using assms(1) zero_less_power_int [of "2::real" k] by linarith
  have "2 powr (of_int k) \<le> \<bar>x\<bar> \<and> \<bar>x\<bar> < 2 powr (of_int (k + 1))"
    using assms by (simp only: powr_real_of_int' [of 2, simplified])
  then have "2 powr (of_int k) \<le> \<bar>x\<bar> \<and> \<bar>x\<bar> < 2 powr (of_int k + 1)" by simp
  with floor_log_eq_powr_iff [OF pos, of 2 k] pos show ?thesis by (simp add: expo_def)
qed

lemma round_even_of_int: "round_even (of_int n) = n"
  by (simp add: round_even_def)

lemma round_even_lower: "\<lfloor>t\<rfloor> \<le> round_even t"
  by (simp add: round_even_def Let_def)

lemma round_even_upper: "round_even t \<le> \<lfloor>t\<rfloor> + 1"
  by (simp add: round_even_def Let_def)

lemma round_even_mono:
  assumes "s \<le> t"
  shows "round_even s \<le> round_even t"
proof (cases "\<lfloor>s\<rfloor> = \<lfloor>t\<rfloor>")
  case True
  with assms show ?thesis by (auto simp: round_even_def Let_def)
next
  case False
  with assms have "\<lfloor>s\<rfloor> < \<lfloor>t\<rfloor>" by (simp add: floor_mono order.strict_iff_order)
  then have "\<lfloor>s\<rfloor> + 1 \<le> \<lfloor>t\<rfloor>" by simp
  with round_even_upper [of s] round_even_lower [of t] show ?thesis by linarith
qed

lemma round_even_ge: "of_int n \<le> t \<Longrightarrow> n \<le> round_even t"
  using round_even_mono [of "of_int n" t] by (simp add: round_even_of_int)

lemma round_even_le: "t \<le> of_int n \<Longrightarrow> round_even t \<le> n"
  using round_even_mono [of t "of_int n"] by (simp add: round_even_of_int)

lemma powi_53: "(2::real) powi (e + 1) = 2 ^ 53 * 2 powi (e - 52)"
proof -
  have "(2::real) powi (e + 1) = 2 powi (53 + (e - 52))" by (simp add: algebra_simps)
  also have "\<dots> = 2 powi 53 * 2 powi (e - 52)" by (rule power_int_add) simp
  finally show ?thesis by simp
qed

lemma powi_52: "(2::real) powi e = 2 ^ 52 * 2 powi (e - 52)"
proof -
  have "(2::real) powi e = 2 powi (52 + (e - 52))" by (simp add: algebra_simps)
  also have "\<dots> = 2 powi 52 * 2 powi (e - 52)" by (rule power_int_add) simp
  finally show ?thesis by simp
qed

text \<open>The scaled significand lies between 2^52 and 2^53 in magnitude.\<close>

lemma scaled_bounds:
  assumes "x \<noteq> 0"
  shows "2 ^ 52 \<le> \<bar>x / 2 powi (expo x - 52)\<bar>" and "\<bar>x / 2 powi (expo x - 52)\<bar> < 2 ^ 53"
proof -
  let ?q = "(2::real) powi (expo x - 52)"
  have q: "0 < ?q" by simp
  from expo_bounds [OF assms] have "2 ^ 52 * ?q \<le> \<bar>x\<bar>" and "\<bar>x\<bar> < 2 ^ 53 * ?q"
    using powi_52 [of "expo x"] powi_53 [of "expo x"] by simp_all
  with q show "2 ^ 52 \<le> \<bar>x / ?q\<bar>" and "\<bar>x / ?q\<bar> < 2 ^ 53"
    by (simp_all add: field_simps abs_mult)
qed

lemma fl_pos_bounds:
  assumes "0 < x"
  shows "2 powi expo x \<le> fl x" and "fl x \<le> 2 powi (expo x + 1)"
proof -
  let ?q = "(2::real) powi (expo x - 52)"
  let ?n = "round_even (x / ?q)"
  have q: "0 < ?q" by simp
  from assms have x: "x \<noteq> 0" by simp
  from assms q have "0 < x / ?q" by simp
  with scaled_bounds [OF x] have a: "of_int (2 ^ 52) \<le> x / ?q" and b: "x / ?q \<le> of_int (2 ^ 53)"
    by simp_all
  from a have "2 ^ 52 \<le> ?n" by (rule round_even_ge)
  moreover from b have "?n \<le> 2 ^ 53" by (rule round_even_le)
  ultimately have "2 ^ 52 \<le> ?n" and "?n \<le> 2 ^ 53" by simp_all
  then have "(2::real) ^ 52 \<le> of_int ?n" and "of_int ?n \<le> (2::real) ^ 53"
    by (metis of_int_le_iff of_int_numeral of_int_power)+
  with q have "2 ^ 52 * ?q \<le> of_int ?n * ?q" and "of_int ?n * ?q \<le> 2 ^ 53 * ?q"
    by (intro mult_right_mono, simp, simp)+
  then show "2 powi expo x \<le> fl x" and "fl x \<le> 2 powi (expo x + 1)"
    using x by (simp_all add: fl_def powi_52 [of "expo x"] powi_53 [of "expo x"])
qed

lemma fl_neg_bounds:
  assumes "x < 0"
  shows "fl x \<le> - (2 powi expo x)" and "- (2 powi (expo x + 1)) \<le> fl x"
proof -
  let ?q = "(2::real) powi (expo x - 52)"
  let ?n = "round_even (x / ?q)"
  have q: "0 < ?q" by simp
  from assms have x: "x \<noteq> 0" by simp
  from assms q have "x / ?q < 0" by (simp add: divide_neg_pos)
  with scaled_bounds [OF x] have a: "x / ?q \<le> of_int (- (2 ^ 52))" and b: "of_int (- (2 ^ 53)) \<le> x / ?q"
    by simp_all
  from a have "?n \<le> - (2 ^ 52)" by (rule round_even_le)
  moreover from b have "- (2 ^ 53) \<le> ?n" by (rule round_even_ge)
  ultimately have "?n \<le> - (2 ^ 52)" and "- (2 ^ 53) \<le> ?n" by simp_all
  then have "of_int ?n \<le> - ((2::real) ^ 52)" and "- ((2::real) ^ 53) \<le> of_int ?n"
    by (metis of_int_le_iff of_int_minus of_int_numeral of_int_power)+
  with q have "of_int ?n * ?q \<le> (- (2 ^ 52)) * ?q" and "(- (2 ^ 53)) * ?q \<le> of_int ?n * ?q"
    by (intro mult_right_mono, simp, simp)+
  then show "fl x \<le> - (2 powi expo x)" and "- (2 powi (expo x + 1)) \<le> fl x"
    using x by (simp_all add: fl_def powi_52 [of "expo x"] powi_53 [of "expo x"])
qed

lemma fl_0: "fl 0 = 0"
  by (simp add: fl_def)

lemma fl_pos: "0 < x \<Longrightarrow> 0 < fl x"
  using fl_pos_bounds(1) [of x] zero_less_power_int [of "2::real" "expo x"] by linarith

lemma fl_neg: "x < 0 \<Longrightarrow> fl x < 0"
  using fl_neg_bounds(1) [of x] zero_less_power_int [of "2::real" "expo x"] by linarith

lemma expo_mono_abs:
  assumes "x \<noteq> 0" and "\<bar>x\<bar> \<le> \<bar>y\<bar>"
  shows "expo x \<le> expo y"
proof (rule ccontr)
  assume "\<not> expo x \<le> expo y"
  then have "expo y + 1 \<le> expo x" by simp
  then have "(2::real) powi (expo y + 1) \<le> 2 powi expo x" by (intro power_int_increasing) simp_all
  moreover from assms have y: "y \<noteq> 0" by auto
  ultimately show False
    using expo_bounds(1) [OF assms(1)] expo_bounds(2) [OF y] assms(2) by linarith
qed

lemma fl_same_expo:
  assumes "x \<noteq> 0" and "y \<noteq> 0" and "expo x = expo y" and "x \<le> y"
  shows "fl x \<le> fl y"
proof -
  let ?q = "(2::real) powi (expo y - 52)"
  have q: "0 < ?q" by simp
  with assms(4) have "x / ?q \<le> y / ?q" by (simp add: divide_right_mono)
  then have "round_even (x / ?q) \<le> round_even (y / ?q)" by (rule round_even_mono)
  then have "of_int (round_even (x / ?q)) * ?q \<le> of_int (round_even (y / ?q)) * ?q"
    using q by (simp add: mult_right_mono)
  with assms show ?thesis by (simp add: fl_def)
qed

lemma fl_mono:
  assumes "x \<le> y"
  shows "fl x \<le> fl y"
proof -
  consider "x = y" | "x < 0" "0 \<le> y" | "x = 0" "0 < y" | "0 < x" "x < y" | "y < 0" "x < y"
    using assms by linarith
  then show ?thesis
  proof cases
    case 1
    then show ?thesis by simp
  next
    case 2
    then have "fl x < 0" by (simp add: fl_neg)
    moreover from 2 have "0 \<le> fl y" using fl_pos [of y] fl_0 by (cases "y = 0") auto
    ultimately show ?thesis by simp
  next
    case 3
    then show ?thesis using fl_pos [of y] by (simp add: fl_0)
  next
    case 4
    then have y: "0 < y" by simp
    from 4 have le: "expo x \<le> expo y" by (intro expo_mono_abs) simp_all
    show ?thesis
    proof (cases "expo x = expo y")
      case True
      with 4 y show ?thesis by (intro fl_same_expo) simp_all
    next
      case False
      with le have "expo x + 1 \<le> expo y" by simp
      then have "(2::real) powi (expo x + 1) \<le> 2 powi expo y"
        by (intro power_int_increasing) simp_all
      with fl_pos_bounds(2) [OF 4(1)] fl_pos_bounds(1) [OF y] show ?thesis by linarith
    qed
  next
    case 5
    then have x: "x < 0" by simp
    from 5 have le: "expo y \<le> expo x" by (intro expo_mono_abs) simp_all
    show ?thesis
    proof (cases "expo x = expo y")
      case True
      with 5 x show ?thesis by (intro fl_same_expo) simp_all
    next
      case False
      with le have "expo y + 1 \<le> expo x" by simp
      then have "(2::real) powi (expo y + 1) \<le> 2 powi expo x"
        by (intro power_int_increasing) simp_all
      with fl_neg_bounds(1) [OF x] fl_neg_bounds(2) [OF 5(1)] show ?thesis by linarith
    qed
  qed
qed

lemma powi_lt_exp:
  assumes "(2::real) powi a < 2 powi b"
  shows "a < b"
proof (rule ccontr)
  assume "\<not> a < b"
  then have "b \<le> a" by simp
  then have "(2::real) powi b \<le> 2 powi a" by (intro power_int_increasing) simp_all
  with assms show False by simp
qed

lemma fl_fix:
  assumes "representable x"
  shows "fl x = x"
proof (cases "x = 0")
  case True
  then show ?thesis by (simp add: fl_0)
next
  case False
  from assms obtain m p where m: "\<bar>m\<bar> < 2 ^ 53" and x: "x = of_int m * 2 powi p"
    by (auto simp: representable_def)
  let ?e = "expo x"
  have "\<bar>x\<bar> = \<bar>of_int m\<bar> * 2 powi p" by (simp add: x abs_mult)
  also have "\<dots> < 2 ^ 53 * 2 powi p"
  proof (intro mult_strict_right_mono)
    from m have "of_int \<bar>m\<bar> < (of_int (2 ^ 53) :: real)" by (simp only: of_int_less_iff)
    then show "\<bar>real_of_int m\<bar> < 2 ^ 53" by simp
  qed simp
  also have "\<dots> = 2 powi (53 + p)" by (subst power_int_add) simp_all
  finally have "2 powi ?e < (2::real) powi (53 + p)"
    using expo_bounds(1) [OF False] by simp
  then have "?e < 53 + p" by (rule powi_lt_exp)
  then have k: "0 \<le> p - (?e - 52)" by simp
  have "x / 2 powi (?e - 52) = of_int m * 2 powi (p - (?e - 52))"
    by (simp add: x power_int_diff)
  also have "\<dots> = of_int m * 2 ^ nat (p - (?e - 52))"
    using k by (simp add: power_int_nonneg_exp)
  also have "\<dots> = of_int (m * 2 ^ nat (p - (?e - 52)))" by simp
  finally have sc: "x / 2 powi (?e - 52) = of_int (m * 2 ^ nat (p - (?e - 52)))" .
  have "fl x = of_int (round_even (x / 2 powi (?e - 52))) * 2 powi (?e - 52)"
    using False by (simp add: fl_def)
  also have "\<dots> = (x / 2 powi (?e - 52)) * 2 powi (?e - 52)"
    by (simp only: sc round_even_of_int)
  also have "\<dots> = x" by simp
  finally show ?thesis .
qed

lemma representable_0: "representable 0"
  unfolding representable_def by (rule exI [of _ 0], rule exI [of _ 0]) simp

lemma representable_of_int: "\<bar>n\<bar> < 2 ^ 53 \<Longrightarrow> representable (of_int n)"
  unfolding representable_def by (rule exI [of _ n], rule exI [of _ 0]) simp

lemma representable_minus: "representable x \<Longrightarrow> representable (- x)"
  unfolding representable_def
proof (elim exE conjE)
  fix m p assume "\<bar>m\<bar> < 2 ^ 53" and "x = of_int m * 2 powi p"
  then have "\<bar>- m\<bar> < 2 ^ 53 \<and> - x = of_int (- m) * 2 powi p" by simp
  then show "\<exists>m p. \<bar>m\<bar> < 2 ^ 53 \<and> - x = of_int m * 2 powi p" by blast
qed

lemma representable_double: "representable x \<Longrightarrow> representable (2 * x)"
  unfolding representable_def
proof (elim exE conjE)
  fix m p assume m: "\<bar>m\<bar> < 2 ^ 53" and x: "x = of_int m * 2 powi p"
  have "(2::real) powi (p + 1) = 2 powi p * 2" by (subst power_int_add) simp_all
  with x have "2 * x = of_int m * 2 powi (p + 1)" by simp
  with m show "\<exists>m p. \<bar>m\<bar> < 2 ^ 53 \<and> 2 * x = of_int m * 2 powi p" by blast
qed

lemma representable_fl: "representable (fl x)"
proof (cases "x = 0")
  case True
  then show ?thesis by (simp add: fl_0 representable_0)
next
  case False
  let ?q = "(2::real) powi (expo x - 52)"
  let ?n = "round_even (x / ?q)"
  have flx: "fl x = of_int ?n * ?q" using False by (simp add: fl_def)
  have "- (2 ^ 53) \<le> ?n \<and> ?n \<le> 2 ^ 53"
  proof -
    from scaled_bounds(2) [OF False] have "\<bar>x / ?q\<bar> < 2 ^ 53" .
    then have "- (2 ^ 53) \<le> x / ?q" and "x / ?q \<le> 2 ^ 53" by linarith+
    then have "of_int (- (2 ^ 53)) \<le> x / ?q" and "x / ?q \<le> of_int (2 ^ 53)" by simp_all
    then show ?thesis using round_even_ge round_even_le by blast
  qed
  then consider "\<bar>?n\<bar> < 2 ^ 53" | "?n = 2 ^ 53" | "?n = - (2 ^ 53)" by linarith
  then show ?thesis
  proof cases
    case 1
    then show ?thesis unfolding representable_def flx by blast
  next
    case 2
    have "(2::real) powi (expo x - 52 + 1) = ?q * 2" by (subst power_int_add) simp_all
    then have "fl x = of_int (2 ^ 52) * 2 powi (expo x - 52 + 1)" by (simp add: flx 2)
    moreover have "\<bar>2 ^ 52 :: int\<bar> < 2 ^ 53" by simp
    ultimately show ?thesis unfolding representable_def by blast
  next
    case 3
    have "(2::real) powi (expo x - 52 + 1) = ?q * 2" by (subst power_int_add) simp_all
    then have "fl x = of_int (- (2 ^ 52)) * 2 powi (expo x - 52 + 1)" by (simp add: flx 3)
    moreover have "\<bar>- (2 ^ 52) :: int\<bar> < 2 ^ 53" by simp
    ultimately show ?thesis unfolding representable_def by blast
  qed
qed

lemma fl_idem: "fl (fl x) = fl x"
  by (rule fl_fix) (rule representable_fl)

lemma fl_numeral: "numeral k < (2 ^ 53 :: int) \<Longrightarrow> fl (numeral k) = numeral k"
  using fl_fix [OF representable_of_int [of "numeral k"]] by simp

lemma fl_neg_numeral: "numeral k < (2 ^ 53 :: int) \<Longrightarrow> fl (- numeral k) = - numeral k"
  using fl_fix [OF representable_of_int [of "- numeral k"]] by simp

lemma fl_1: "fl 1 = 1"
  using fl_fix [OF representable_of_int [of 1]] by simp


lemma fl_edge_product: "fl (10 * (1 / 2 - 1 / 2 ^ 53)) = 5 - 1 / 2 ^ 50"
proof -
  have "expo (10 * (1 / 2 - 1 / 2 ^ 53)) = 2" by (rule expo_eqI) simp_all
  then show ?thesis by (simp add: fl_def round_even_def Let_def)
qed

lemma fl_tiny: "fl (- (1 / 2 ^ 50)) = - (1 / 2 ^ 50)"
proof (rule fl_fix)
  have "- (1 / 2 ^ 50) = real_of_int (- 1) * 2 powi (- 50)"
    by (simp add: power_int_minus field_simps)
  moreover have "\<bar>- 1 :: int\<bar> < 2 ^ 53" by simp
  ultimately show "representable (- (1 / 2 ^ 50))" unfolding representable_def by blast
qed

lemma fl_edge_wrap: "fl (- (1 / 2 ^ 50) + 360) = 360"
proof -
  have "expo (- (1 / 2 ^ 50) + 360) = 8" by (rule expo_eqI) simp_all
  then show ?thesis by (simp add: fl_def round_even_def Let_def)
qed

text \<open>An equation for \<open>expo\<close> that computes, for evaluating \<open>fl\<close> on concrete numbers.\<close>

lemma expo_code [code]:
  "expo x =
     (if x = 0 then 0
      else if 1 \<le> \<bar>x\<bar> then bitlen \<lfloor>\<bar>x\<bar>\<rfloor> - 1
      else - bitlen (\<lceil>1 / \<bar>x\<bar>\<rceil> - 1))"
proof (cases "x = 0")
  case True
  then show ?thesis by (simp add: expo_def)
next
  case False
  show ?thesis
  proof (cases "1 \<le> \<bar>x\<bar>")
    case True
    let ?n = "\<lfloor>\<bar>x\<bar>\<rfloor>"
    from True have n: "0 < ?n" by simp
    from bitlen_bounds [OF n] have lo: "2 ^ nat (bitlen ?n - 1) \<le> ?n" and hi: "?n < 2 ^ nat (bitlen ?n)"
      by simp_all
    have b: "0 < bitlen ?n" by (rule ccontr) (use hi n in simp)
    have "expo x = bitlen ?n - 1"
    proof (rule expo_eqI)
      have "(2::real) powi (bitlen ?n - 1) = 2 ^ nat (bitlen ?n - 1)"
        using b by (simp add: power_int_nonneg_exp)
      also have "\<dots> = of_int (2 ^ nat (bitlen ?n - 1))" by simp
      also have "\<dots> \<le> of_int ?n" using lo by (simp only: of_int_le_iff)
      also have "\<dots> \<le> \<bar>x\<bar>" by simp
      finally show "2 powi (bitlen ?n - 1) \<le> \<bar>x\<bar>" .
      have le: "?n + 1 \<le> 2 ^ nat (bitlen ?n)" using hi by simp
      have "\<bar>x\<bar> < of_int ?n + 1" by (rule real_of_int_floor_add_one_gt)
      also have "\<dots> = of_int (?n + 1)" by simp
      also have "\<dots> \<le> of_int (2 ^ nat (bitlen ?n))" using le by (simp only: of_int_le_iff)
      also have "\<dots> = 2 ^ nat (bitlen ?n)" by simp
      finally have "\<bar>x\<bar> < 2 ^ nat (bitlen ?n)" .
      then show "\<bar>x\<bar> < 2 powi (bitlen ?n - 1 + 1)"
        using b by (simp add: power_int_nonneg_exp)
    qed
    with True False show ?thesis by simp
  next
    case small: False
    let ?y = "1 / \<bar>x\<bar>"
    let ?n = "\<lceil>?y\<rceil> - 1"
    from small False have y: "1 < ?y" by simp
    then have n: "0 < ?n" by (simp; linarith)
    from bitlen_bounds [OF n] have lo: "2 ^ nat (bitlen ?n - 1) \<le> ?n" and hi: "?n < 2 ^ nat (bitlen ?n)"
      by simp_all
    have b: "0 < bitlen ?n" by (rule ccontr) (use hi n in simp)
    have ylo: "of_int \<lceil>?y\<rceil> - 1 < ?y" by (rule conjunct1 [OF ceiling_correct])
    have yhi: "?y \<le> of_int \<lceil>?y\<rceil>" by (rule conjunct2 [OF ceiling_correct])
    have xpos: "0 < \<bar>x\<bar>" using False by simp
    have "expo x = - bitlen ?n"
    proof (rule expo_eqI)
      have le: "?n + 1 \<le> 2 ^ nat (bitlen ?n)" using hi by simp
      note yhi
      also have "of_int \<lceil>?y\<rceil> = (of_int (?n + 1) :: real)" by simp
      also have "\<dots> \<le> of_int (2 ^ nat (bitlen ?n))" using le by (simp only: of_int_le_iff)
      also have "\<dots> = 2 ^ nat (bitlen ?n)" by simp
      finally have "?y \<le> 2 ^ nat (bitlen ?n)" .
      then have "1 \<le> 2 ^ nat (bitlen ?n) * \<bar>x\<bar>" using xpos by (simp add: field_simps)
      then have "1 / 2 ^ nat (bitlen ?n) \<le> \<bar>x\<bar>" by (simp add: field_simps)
      moreover have "(2::real) powi (- bitlen ?n) = 1 / 2 ^ nat (bitlen ?n)"
        using b by (simp add: power_int_minus power_int_nonneg_exp field_simps)
      ultimately show "2 powi (- bitlen ?n) \<le> \<bar>x\<bar>" by simp
      have "(2::real) ^ nat (bitlen ?n - 1) = of_int (2 ^ nat (bitlen ?n - 1))" by simp
      also have "\<dots> \<le> of_int ?n" using lo by (simp only: of_int_le_iff)
      also have "\<dots> = of_int \<lceil>?y\<rceil> - 1" by simp
      also note ylo
      finally have "2 ^ nat (bitlen ?n - 1) < ?y" .
      then have "2 ^ nat (bitlen ?n - 1) * \<bar>x\<bar> < 1" using xpos by (simp add: field_simps)
      then have "\<bar>x\<bar> < 1 / 2 ^ nat (bitlen ?n - 1)" by (simp add: field_simps)
      moreover have "(2::real) powi (- bitlen ?n + 1) = 1 / 2 ^ nat (bitlen ?n - 1)"
      proof -
        have "- bitlen ?n + 1 = - (bitlen ?n - 1)" by simp
        then have "(2::real) powi (- bitlen ?n + 1) = inverse (2 powi (bitlen ?n - 1))"
          by (simp only: power_int_minus)
        also have "\<dots> = 1 / 2 ^ nat (bitlen ?n - 1)"
          using b by (simp add: power_int_nonneg_exp field_simps)
        finally show ?thesis .
      qed
      ultimately show "\<bar>x\<bar> < 2 powi (- bitlen ?n + 1)" by simp
    qed
    with small False show ?thesis by simp
  qed
qed

section \<open>The random walk under rounding\<close>

lemma c_fmod_360:
  "- 360 < c_fmod x 360" "c_fmod x 360 < 360"
proof -
  have lo: "of_int \<lfloor>x / 360\<rfloor> * 360 \<le> x" and hi: "x < (of_int \<lfloor>x / 360\<rfloor> + 1) * 360"
    using floor_divide_lower [of 360 x] floor_divide_upper [of 360 x] by simp_all
  have clo: "(of_int \<lceil>x / 360\<rceil> - 1) * 360 < x" and chi: "x \<le> of_int \<lceil>x / 360\<rceil> * 360"
    using ceiling_divide_lower [of 360 x] ceiling_divide_upper [of 360 x] by simp_all
  show "- 360 < c_fmod x 360" using lo hi clo chi by (simp add: c_fmod_def algebra_simps)
  show "c_fmod x 360 < 360" using lo hi clo chi by (simp add: c_fmod_def algebra_simps)
qed

lemma fl_360: "fl 360 = 360"
  by (simp add: fl_numeral)

lemma float_mod_360: "0 \<le> float_mod x 360 \<and> float_mod x 360 \<le> 360"
proof -
  let ?m = "c_fmod x 360"
  consider "?m = 0" | "?m < 0" | "0 < ?m" by linarith
  then show ?thesis
  proof cases
    case 1
    then show ?thesis by (simp add: float_mod_def)
  next
    case 2
    have "fl 0 \<le> fl (?m + 360)" using c_fmod_360(1) [of x] by (intro fl_mono) simp
    moreover have "fl (?m + 360) \<le> fl 360" using 2 by (intro fl_mono) simp
    ultimately show ?thesis using 2 by (simp add: float_mod_def fl_0 fl_360)
  next
    case 3
    then show ?thesis using c_fmod_360(2) [of x] by (simp add: float_mod_def)
  qed
qed

lemma uniform_sym:
  assumes c: "representable c" and "0 \<le> c" and "0 \<le> r" and "r < 1"
  shows "\<bar>uniform (- c) c r\<bar> \<le> c"
proof -
  have two: "fl (2 * c) = 2 * c"
    by (rule fl_fix [OF representable_double [OF c]])
  have p1: "0 \<le> 2 * c * r" and p2: "2 * c * r \<le> 2 * c"
    using assms by (simp_all add: mult_left_le)
  have "fl 0 \<le> fl (2 * c * r)" using p1 by (rule fl_mono)
  moreover have "fl (2 * c * r) \<le> fl (2 * c)" using p2 by (rule fl_mono)
  ultimately have mid: "0 \<le> fl (2 * c * r)" "fl (2 * c * r) \<le> 2 * c"
    using fl_fix [OF representable_double [OF c]] by (simp_all add: fl_0)
  have "fl (- c) \<le> fl (- c + fl (2 * c * r))" using mid(1) by (intro fl_mono) simp
  moreover have "fl (- c + fl (2 * c * r)) \<le> fl c" using mid(2) by (intro fl_mono) simp
  ultimately have "- c \<le> fl (- c + fl (2 * c * r))" and "fl (- c + fl (2 * c * r)) \<le> c"
    using fl_fix [OF c] fl_fix [OF representable_minus [OF c]] by simp_all
  then show ?thesis by (simp add: uniform_def two abs_le_iff)
qed

lemma representable_numeral: "numeral k < (2 ^ 53 :: int) \<Longrightarrow> representable (numeral k)"
  using representable_of_int [of "numeral k"] by simp

lemma fl_nonneg: "0 \<le> x \<Longrightarrow> 0 \<le> fl x"
  using fl_mono [of 0 x] by (simp add: fl_0)

lemma is_data_not_bye: "is_data m \<Longrightarrow> \<not> is_bye m"
  by (auto simp: is_data_def is_bye_def)

lemma tick_msg_bounded: "walk_bounded (data_msg (fst (tick p)) st now)"
  using float_mod_360
  by (simp add: walk_bounded_def data_msg_def tick_def Let_def)

lemma tick_status: "is_data (data_msg p' (snd (tick p)) now)"
  by (simp add: is_data_def data_msg_def tick_def Let_def)

lemma tick_frame: "ac_id (fst (tick p)) = ac_id p" "pc (fst (tick p)) = pc p" "rng (fst (tick p)) = rng p"
  by (simp_all add: tick_def Let_def)

lemma bye_msg_props: "is_bye (bye_msg i now)" "zero_fields (bye_msg i now)" "aircraft_id (bye_msg i now) = i"
  by (simp_all add: bye_msg_def is_bye_def zero_fields_def)

lemma data_msg_id: "aircraft_id (data_msg p st now) = ac_id p"
  by (simp add: data_msg_def)

section \<open>The invariant is kept\<close>

text \<open>What one scheduling of a task can do.\<close>

lemma aircraft_task_id: "ac_id (fst (aircraft_task now run full p)) = ac_id p"
  by (cases "pc p") (simp_all add: aircraft_task_def Let_def after_put_def tick_frame)

lemma aircraft_task_pc_ok: "pc_ok p \<Longrightarrow> pc_ok (fst (aircraft_task now run full p))"
  by (cases "pc p")
     (simp_all add: aircraft_task_def Let_def after_put_def tick_frame pc_ok_def
        tick_msg_bounded tick_status bye_msg_props data_msg_id)

lemma aircraft_task_None:
  "snd (aircraft_task now run full p) = None \<Longrightarrow>
     (pc (fst (aircraft_task now run full p)) = Done) = (pc p = Done)"
  by (cases "pc p") (simp_all add: aircraft_task_def Let_def after_put_def split: if_splits)

lemma aircraft_task_Some:
  assumes "pc_ok p" and "snd (aircraft_task now run full p) = Some m"
  shows "aircraft_id m = ac_id p \<and> pc p \<noteq> Done \<and>
         ((is_data m \<and> walk_bounded m \<and> pc (fst (aircraft_task now run full p)) = Ready) \<or>
          (is_bye m \<and> zero_fields m \<and> pc (fst (aircraft_task now run full p)) = Done))"
  using assms
  by (cases "pc p")
     (auto simp: aircraft_task_def Let_def after_put_def tick_frame pc_ok_def
        tick_msg_bounded tick_status bye_msg_props data_msg_id split: if_splits)

lemma filter_update_length:
  "i < length xs \<Longrightarrow>
     length (filter P (xs[i := y])) + (if P (xs ! i) then 1 else 0) =
     length (filter P xs) + (if P y then 1 else 0)"
proof (induction xs arbitrary: i)
  case Nil
  then show ?case by simp
next
  case (Cons x xs)
  show ?case
  proof (cases i)
    case 0
    then show ?thesis by simp
  next
    case (Suc j)
    with Cons.prems have "j < length xs" by simp
    from Cons.IH [OF this] Suc show ?thesis by simp
  qed
qed

lemma popped_append:
  assumes "sent s = popped s @ queue s"
  shows "take (length (sent s @ out) - length (queue s @ out)) (sent s @ out) = popped s"
proof -
  have "length (sent s) = length (popped s) + length (queue s)"
    using assms by (metis length_append)
  then have "length (sent s @ out) - length (queue s @ out) = length (popped s)" by simp
  then show ?thesis using assms by (metis append_assoc append_eq_conv_conj)
qed

text \<open>The shape of the state after an aircraft task was resumed.\<close>

lemma plane_step_out_of_range: "\<not> i < length (planes s) \<Longrightarrow> plane_step i now s = s"
  by (simp add: plane_step_def)

lemma plane_step_frame:
  "running (plane_step i now s) = running s"
  "killed (plane_step i now s) = killed s"
  "twr (plane_step i now s) = twr s"
  "tpc (plane_step i now s) = tpc s"
  "num_aircraft (plane_step i now s) = num_aircraft s"
  "maxsize (plane_step i now s) = maxsize s"
  "length (planes (plane_step i now s)) = length (planes s)"
  by (simp_all add: plane_step_def Let_def)

lemma aircraft_task_outcome:
  assumes "pc_ok p"
  shows "put_outcome p (fst (aircraft_task now run full p))
           (case snd (aircraft_task now run full p) of None \<Rightarrow> [] | Some m \<Rightarrow> [m])"
proof (cases "snd (aircraft_task now run full p)")
  case None
  then show ?thesis
    using aircraft_task_None [OF None] assms
    by (simp add: put_outcome_def aircraft_task_id aircraft_task_pc_ok)
next
  case (Some m)
  then show ?thesis
    using aircraft_task_Some [OF assms Some] assms
    by (simp add: put_outcome_def aircraft_task_id aircraft_task_pc_ok)
qed

lemma plane_step_shape:
  assumes "i < length (planes s)" and "pc_ok (planes s ! i)"
  obtains p' out where
    "planes (plane_step i now s) = (planes s)[i := p']"
    "queue (plane_step i now s) = queue s @ out"
    "sent (plane_step i now s) = sent s @ out"
    "put_outcome (planes s ! i) p' out"
proof -
  let ?r = "aircraft_task now (running s) (queue_full s) (planes s ! i)"
  let ?out = "case snd ?r of None \<Rightarrow> [] | Some m \<Rightarrow> [m]"
  have 1: "planes (plane_step i now s) = (planes s)[i := fst ?r]"
    and 2: "queue (plane_step i now s) = queue s @ ?out"
    and 3: "sent (plane_step i now s) = sent s @ ?out"
    using assms by (simp_all add: plane_step_def Let_def)
  have 4: "put_outcome (planes s ! i) (fst ?r) ?out"
    using assms(2) by (rule aircraft_task_outcome)
  from that [OF 1 2 3 4] show thesis .
qed

text \<open>Resuming an aircraft task keeps each part of the invariant.\<close>

lemma inv_tasks_plane:
  assumes "inv_tasks s"
  shows "inv_tasks (plane_step i now s)"
proof (cases "i < length (planes s)")
  case False
  then show ?thesis using assms by (simp add: plane_step_out_of_range)
next
  case True
  from assms True have ok: "pc_ok (planes s ! i)" by (simp add: inv_tasks_def)
  from True ok obtain p' out where
    ps: "planes (plane_step i now s) = (planes s)[i := p']"
    and "queue (plane_step i now s) = queue s @ out"
    and "sent (plane_step i now s) = sent s @ out"
    and po: "put_outcome (planes s ! i) p' out"
    by (rule plane_step_shape)
  from po have id: "ac_id p' = ac_id (planes s ! i)" and ok': "pc_ok p'"
    by (simp_all add: put_outcome_def)
  show ?thesis
    unfolding inv_tasks_def
  proof (intro conjI allI impI)
    show "length (planes (plane_step i now s)) = nat (num_aircraft (plane_step i now s))"
      using assms by (simp add: plane_step_frame inv_tasks_def)
  next
    fix j assume "j < length (planes (plane_step i now s))"
    then have j: "j < length (planes s)" by (simp add: plane_step_frame)
    with assms have "ac_id (planes s ! j) = int j + 1" by (simp add: inv_tasks_def)
    with j id True show "ac_id (planes (plane_step i now s) ! j) = int j + 1"
      by (cases "j = i") (simp_all add: ps)
  next
    fix j assume "j < length (planes (plane_step i now s))"
    then have j: "j < length (planes s)" by (simp add: plane_step_frame)
    with assms have "pc_ok (planes s ! j)" by (simp add: inv_tasks_def)
    with j ok' True show "pc_ok (planes (plane_step i now s) ! j)"
      by (cases "j = i") (simp_all add: ps)
  qed
qed

lemma inv_sent_plane:
  assumes "inv_tasks s" and "inv_sent s"
  shows "inv_sent (plane_step i now s)"
proof (cases "i < length (planes s)")
  case False
  then show ?thesis using assms by (simp add: plane_step_out_of_range)
next
  case True
  from assms True have ok: "pc_ok (planes s ! i)" and idi: "ac_id (planes s ! i) = int i + 1"
    by (simp_all add: inv_tasks_def)
  from True ok obtain p' out where
    "planes (plane_step i now s) = (planes s)[i := p']"
    and "queue (plane_step i now s) = queue s @ out"
    and snt: "sent (plane_step i now s) = sent s @ out"
    and po: "put_outcome (planes s ! i) p' out"
    by (rule plane_step_shape)
  have new: "\<forall>m \<in> set out. aircraft_id m = int i + 1 \<and>
      ((is_data m \<and> walk_bounded m) \<or> (is_bye m \<and> zero_fields m))"
    using po idi by (auto simp: put_outcome_def)
  show ?thesis
    unfolding inv_sent_def
  proof
    fix m assume "m \<in> set (sent (plane_step i now s))"
    then consider "m \<in> set (sent s)" | "m \<in> set out" by (auto simp: snt)
    then show "(\<exists>j<length (planes (plane_step i now s)). aircraft_id m = int j + 1) \<and>
         (is_data m \<and> walk_bounded m \<or> is_bye m \<and> zero_fields m)"
    proof cases
      case 1
      with assms(2) show ?thesis by (simp add: inv_sent_def plane_step_frame)
    next
      case 2
      with new True show ?thesis by (auto simp: plane_step_frame)
    qed
  qed
qed

lemma inv_queue_plane:
  assumes "inv_tasks s" and "inv_queue s"
  shows "inv_queue (plane_step i now s)"
proof (cases "i < length (planes s)")
  case False
  then show ?thesis using assms by (simp add: plane_step_out_of_range)
next
  case True
  from assms True have ok: "pc_ok (planes s ! i)" by (simp add: inv_tasks_def)
  from True ok obtain p' out where
    "planes (plane_step i now s) = (planes s)[i := p']"
    and que: "queue (plane_step i now s) = queue s @ out"
    and snt: "sent (plane_step i now s) = sent s @ out"
    and "put_outcome (planes s ! i) p' out"
    by (rule plane_step_shape)
  from assms have eq: "sent s = popped s @ queue s" by (simp add: inv_queue_def)
  have pop: "popped (plane_step i now s) = popped s"
    using popped_append [OF eq, of out] by (simp add: popped_def snt que)
  show ?thesis
    using assms eq by (simp add: inv_queue_def pop snt que plane_step_frame)
qed

lemma inv_exit_plane: "inv_exit s \<Longrightarrow> inv_exit (plane_step i now s)"
  by (simp add: inv_exit_def plane_step_frame)

lemma inv_emitted_plane:
  assumes "inv_tasks s" and "inv_emitted s"
  shows "inv_emitted (plane_step i now s)"
proof (cases "i < length (planes s)")
  case False
  then show ?thesis using assms by (simp add: plane_step_out_of_range)
next
  case True
  let ?s' = "plane_step i now s"
  let ?D = "\<lambda>p. pc p = Done"
  from assms True have ok: "pc_ok (planes s ! i)" and idi: "ac_id (planes s ! i) = int i + 1"
    by (simp_all add: inv_tasks_def)
  from True ok obtain p' out where
    ps: "planes ?s' = (planes s)[i := p']"
    and "queue ?s' = queue s @ out"
    and snt: "sent ?s' = sent s @ out"
    and po: "put_outcome (planes s ! i) p' out"
    by (rule plane_step_shape)
  from assms(2) have cnt: "length (filter is_bye (sent s)) = length (filter ?D (planes s))"
    by (simp add: inv_emitted_def)
  have old: "\<forall>m \<in> set (butlast (emitted s (int j + 1))). is_data m"
       "if pc (planes s ! j) = Done
          then emitted s (int j + 1) \<noteq> [] \<and> is_bye (last (emitted s (int j + 1)))
          else \<forall>m \<in> set (emitted s (int j + 1)). is_data m"
    if "j < length (planes s)" for j
    using assms(2) that by (simp_all add: inv_emitted_def)
  have upd: "length (filter ?D ((planes s)[i := p'])) + (if ?D (planes s ! i) then 1 else 0) =
      length (filter ?D (planes s)) + (if ?D p' then 1 else 0)"
    using True by (rule filter_update_length)
  have em: "emitted ?s' k = emitted s k @ filter (\<lambda>m. aircraft_id m = k) out" for k
    by (simp add: emitted_def snt)
  from po consider
      (idle) "out = []" "(pc p' = Done) = (pc (planes s ! i) = Done)"
    | (data) m where "out = [m]" "aircraft_id m = int i + 1" "pc (planes s ! i) \<noteq> Done"
        "is_data m" "pc p' = Ready"
    | (bye) m where "out = [m]" "aircraft_id m = int i + 1" "pc (planes s ! i) \<noteq> Done"
        "is_bye m" "pc p' = Done"
    using idi by (auto simp: put_outcome_def)
  then show ?thesis
  proof cases
    case idle
    have A: "length (filter is_bye (sent ?s')) = length (filter ?D (planes ?s'))"
      using upd cnt idle by (simp add: snt ps)
    have B: "(\<forall>m \<in> set (butlast (emitted ?s' (int j + 1))). is_data m) \<and>
       (if pc (planes ?s' ! j) = Done
          then emitted ?s' (int j + 1) \<noteq> [] \<and> is_bye (last (emitted ?s' (int j + 1)))
          else \<forall>m \<in> set (emitted ?s' (int j + 1)). is_data m)"
      if "j < length (planes s)" for j
      using old [OF that] idle that True by (cases "j = i") (auto simp: em ps)
    show ?thesis unfolding inv_emitted_def using A B by (simp add: plane_step_frame)
  next
    case data
    have A: "length (filter is_bye (sent ?s')) = length (filter ?D (planes ?s'))"
      using upd cnt data by (simp add: snt ps is_data_not_bye)
    have B: "(\<forall>m \<in> set (butlast (emitted ?s' (int j + 1))). is_data m) \<and>
       (if pc (planes ?s' ! j) = Done
          then emitted ?s' (int j + 1) \<noteq> [] \<and> is_bye (last (emitted ?s' (int j + 1)))
          else \<forall>m \<in> set (emitted ?s' (int j + 1)). is_data m)"
      if "j < length (planes s)" for j
      using old [OF that] data that True by (cases "j = i") (auto simp: em ps)
    show ?thesis unfolding inv_emitted_def using A B by (simp add: plane_step_frame)
  next
    case bye
    have A: "length (filter is_bye (sent ?s')) = length (filter ?D (planes ?s'))"
      using upd cnt bye by (simp add: snt ps)
    have B: "(\<forall>m \<in> set (butlast (emitted ?s' (int j + 1))). is_data m) \<and>
       (if pc (planes ?s' ! j) = Done
          then emitted ?s' (int j + 1) \<noteq> [] \<and> is_bye (last (emitted ?s' (int j + 1)))
          else \<forall>m \<in> set (emitted ?s' (int j + 1)). is_data m)"
      if "j < length (planes s)" for j
      using old [OF that] bye that True by (cases "j = i") (auto simp: em ps)
    show ?thesis unfolding inv_emitted_def using A B by (simp add: plane_step_frame)
  qed
qed

text \<open>The invariants read only some fields.\<close>

lemma inv_tasks_cong:
  "planes s' = planes s \<Longrightarrow> num_aircraft s' = num_aircraft s \<Longrightarrow> inv_tasks s' = inv_tasks s"
  by (simp add: inv_tasks_def)

lemma inv_sent_cong:
  "planes s' = planes s \<Longrightarrow> sent s' = sent s \<Longrightarrow> inv_sent s' = inv_sent s"
  by (simp add: inv_sent_def)

lemma inv_queue_cong:
  "sent s' = sent s \<Longrightarrow> queue s' = queue s \<Longrightarrow> twr s' = twr s \<Longrightarrow> inv_queue s' = inv_queue s"
  by (simp add: inv_queue_def popped_def)

lemma inv_emitted_cong:
  "planes s' = planes s \<Longrightarrow> sent s' = sent s \<Longrightarrow> inv_emitted s' = inv_emitted s"
  by (simp add: inv_emitted_def emitted_def)

lemma on_message_counts:
  "byes (on_message t m) = byes t + (if is_bye m then 1 else 0)"
  "processed (on_message t m) + rejected (on_message t m) =
     processed t + rejected t + (if is_bye m then 0 else 1)"
  "0 \<le> processed t \<Longrightarrow> 0 \<le> processed (on_message t m)"
  "0 \<le> rejected t \<Longrightarrow> 0 \<le> rejected (on_message t m)"
  by (simp_all add: on_message_def is_bye_def Let_def split: option.splits)

lemma popped_pop:
  assumes "sent s = popped s @ queue s" and "queue s = m # rest"
  shows "take (length (sent s) - length rest) (sent s) = popped s @ [m]"
proof -
  have "sent s = (popped s @ [m]) @ rest" using assms by simp
  moreover from this have "length (sent s) - length rest = length (popped s @ [m])"
    by (metis add_diff_cancel_right' length_append)
  ultimately show ?thesis by (metis append_eq_conv_conj)
qed

lemma inv_queue_pop:
  assumes "inv_sent s" and "inv_queue s" and "queue s = m # rest"
  shows "inv_queue (s\<lparr>queue := rest, twr := on_message (twr s) m, tpc := LoopTest\<rparr>)"
proof -
  from assms have eq: "sent s = popped s @ queue s" by (simp add: inv_queue_def)
  have pop: "popped (s\<lparr>queue := rest, twr := on_message (twr s) m, tpc := LoopTest\<rparr>) = popped s @ [m]"
    using popped_pop [OF eq assms(3)] by (simp add: popped_def)
  have "m \<in> set (sent s)" using eq assms(3) by (metis in_set_conv_decomp)
  with assms(1) have kind: "is_data m \<or> is_bye m" by (auto simp: inv_sent_def)
  then have "is_data m = (\<not> is_bye m)" using is_data_not_bye by blast
  then show ?thesis
    using assms(2) eq assms(3)
    by (simp add: inv_queue_def pop on_message_counts)
qed

lemma tower_poll_frame:
  "planes (tower_poll s) = planes s" "sent (tower_poll s) = sent s"
  "num_aircraft (tower_poll s) = num_aircraft s" "running (tower_poll s) = running s"
  "killed (tower_poll s) = killed s" "maxsize (tower_poll s) = maxsize s"
  by (simp_all add: tower_poll_def split: tower_pc.splits list.splits)

lemma inv_queue_poll:
  assumes "inv_sent s" and "inv_queue s"
  shows "inv_queue (tower_poll s)"
proof (cases "tpc s = Waiting \<and> queue s \<noteq> []")
  case True
  then obtain m rest where q: "queue s = m # rest" by (cases "queue s") auto
  with True inv_queue_pop [OF assms q] show ?thesis by (simp add: tower_poll_def)
next
  case False
  then have "inv_queue (tower_poll s) = inv_queue s"
    by (intro inv_queue_cong) (auto simp: tower_poll_def split: tower_pc.splits list.splits)
  with assms show ?thesis by simp
qed

lemma inv_exit_poll: "inv_exit s \<Longrightarrow> inv_exit (tower_poll s)"
  by (auto simp: inv_exit_def tower_poll_def split: tower_pc.splits list.splits)

lemma sys_inv_poll: "sys_inv s \<Longrightarrow> sys_inv (tower_poll s)"
  using inv_tasks_cong [of "tower_poll s" s] inv_sent_cong [of "tower_poll s" s]
    inv_emitted_cong [of "tower_poll s" s]
  by (simp add: sys_inv_def tower_poll_frame inv_queue_poll inv_exit_poll)

lemma sys_inv_plane: "sys_inv s \<Longrightarrow> sys_inv (plane_step i now s)"
  by (simp add: sys_inv_def inv_tasks_plane inv_sent_plane inv_queue_plane inv_emitted_plane
      inv_exit_plane)

lemma sys_inv_timeout: "sys_inv s \<Longrightarrow> sys_inv (pop_timeout s)"
  using inv_tasks_cong [of "pop_timeout s" s] inv_sent_cong [of "pop_timeout s" s]
    inv_emitted_cong [of "pop_timeout s" s] inv_queue_cong [of "pop_timeout s" s]
  by (simp add: sys_inv_def pop_timeout_def inv_exit_def)

lemma sys_inv_sig: "sys_inv s \<Longrightarrow> sys_inv (handle_sig s)"
  using inv_tasks_cong [of "handle_sig s" s] inv_sent_cong [of "handle_sig s" s]
    inv_emitted_cong [of "handle_sig s" s] inv_queue_cong [of "handle_sig s" s]
  by (simp add: sys_inv_def handle_sig_def inv_exit_def)

lemma sys_inv_step: "sys_inv s \<Longrightarrow> sys_inv (step e s)"
  by (cases e) (simp_all add: step_def sys_inv_plane sys_inv_poll sys_inv_timeout sys_inv_sig)

lemma sys_inv_exec: "sys_inv s \<Longrightarrow> sys_inv (exec evs s)"
  unfolding exec_def by (induction evs arbitrary: s) (simp_all add: sys_inv_step)

lemma sys_inv_start_drain: "sys_inv s \<Longrightarrow> sys_inv (start_drain s)"
  using inv_tasks_cong [of "start_drain s" s] inv_sent_cong [of "start_drain s" s]
    inv_emitted_cong [of "start_drain s" s] inv_queue_cong [of "start_drain s" s]
  by (simp add: sys_inv_def start_drain_def inv_exit_def)

lemma tower_aenter_counts:
  "tower_aenter open_ok t = Inr t' \<Longrightarrow>
     processed t' = processed t \<and> rejected t' = rejected t \<and> byes t' = byes t"
  by (auto simp: tower_aenter_def split: option.splits if_splits)

lemma sys_inv_spawn:
  assumes "processed t = 0" and "rejected t = 0" and "byes t = 0"
  shows "sys_inv ((spawn cfg gen)\<lparr>twr := t\<rparr>)"
proof -
  have "inv_tasks ((spawn cfg gen)\<lparr>twr := t\<rparr>)"
    by (simp add: inv_tasks_def spawn_def aircraft_init_def pc_ok_def Let_def)
  moreover have "inv_sent ((spawn cfg gen)\<lparr>twr := t\<rparr>)"
    by (simp add: inv_sent_def spawn_def)
  moreover have "inv_queue ((spawn cfg gen)\<lparr>twr := t\<rparr>)"
    using assms by (simp add: inv_queue_def popped_def spawn_def)
  moreover have "inv_emitted ((spawn cfg gen)\<lparr>twr := t\<rparr>)"
    by (simp add: inv_emitted_def emitted_def spawn_def aircraft_init_def Let_def)
  moreover have "inv_exit ((spawn cfg gen)\<lparr>twr := t\<rparr>)"
    by (simp add: inv_exit_def spawn_def)
  ultimately show ?thesis by (simp add: sys_inv_def)
qed

section \<open>What holds when the loop of the tower is left\<close>



lemma sys_inv_main: "sys_inv (snd (main cfg gen open_ok window drain))"
proof (cases "tower_aenter open_ok (twr (spawn cfg gen))")
  case (Inl e)
  have "sys_inv ((spawn cfg gen)\<lparr>twr := twr (spawn cfg gen)\<rparr>)"
    by (rule sys_inv_spawn) (simp_all add: spawn_def tower_new_def)
  with Inl show ?thesis by (simp add: main_def Let_def)
next
  case (Inr t)
  from tower_aenter_counts [OF Inr]
  have "processed t = 0" "rejected t = 0" "byes t = 0" by (simp_all add: spawn_def tower_new_def)
  then have 1: "sys_inv (after_window cfg gen t window)"
    unfolding after_window_def by (intro sys_inv_exec sys_inv_spawn)
  then have 2: "sys_inv (after_drain cfg gen t window drain)"
    unfolding after_drain_def by (intro sys_inv_exec sys_inv_start_drain)
  from Inr 1 2 show ?thesis by (simp add: main_def Let_def)
qed


section \<open>Validator\<close>

text \<open>
  Claim C3. \<^verbatim>\<open>validate\<close> accepts a message exactly when latitude is in [-90,90],
  longitude in [-180,180], altitude in [0,60000], speed in [0,700] and heading in [0,360],
  all bounds inclusive; hence one field strictly outside its range rejects, and the ten
  boundary values are accepted.
\<close>

theorem validate_iff_in_bounds:
  "validate msg =
     (latitude msg \<in> {-90..90} \<and> longitude msg \<in> {-180..180} \<and>
      altitude_ft msg \<in> {0..60000} \<and> speed_kt msg \<in> {0..700} \<and>
      heading_deg msg \<in> {0..360})"
  unfolding validate_def by auto

text \<open>
  Claim C10. \<^verbatim>\<open>validate\<close> reads only the five numeric fields: two messages that
  agree on them get the same verdict, whatever their aircraft id, status and timestamp.
\<close>

theorem validate_numeric_fields_only:
  assumes "latitude m1 = latitude m2" and "longitude m1 = longitude m2"
    and "altitude_ft m1 = altitude_ft m2" and "speed_kt m1 = speed_kt m2"
    and "heading_deg m1 = heading_deg m2"
  shows "validate m1 = validate m2"
  using assms by (simp add: validate_def)

theorem validate_numeric_fields_only_witness:
  "validate \<lparr>aircraft_id = 1, latitude = 91, longitude = 0, altitude_ft = 0, speed_kt = 0,
             heading_deg = 0, status = ''OK'', ts = ''a''\<rparr>
   = validate \<lparr>aircraft_id = 2, latitude = 91, longitude = 0, altitude_ft = 0, speed_kt = 0,
               heading_deg = 0, status = ''BYE'', ts = ''b''\<rparr>"
  using validate_numeric_fields_only
    [of "\<lparr>aircraft_id = 1, latitude = 91, longitude = 0, altitude_ft = 0, speed_kt = 0,
           heading_deg = 0, status = ''OK'', ts = ''a''\<rparr>"
        "\<lparr>aircraft_id = 2, latitude = 91, longitude = 0, altitude_ft = 0, speed_kt = 0,
           heading_deg = 0, status = ''BYE'', ts = ''b''\<rparr>"]
  by simp

section \<open>Evaluating example runs\<close>

lemma tick_status_neq_bye: "snd (tick p) \<noteq> ''BYE''"
  by (simp add: tick_def Let_def)

lemmas run_simps =
  main_def after_window_def after_drain_def start_drain_def exec_def step_def plane_step_def
  tower_poll_def pop_timeout_def handle_sig_def aircraft_task_def after_put_def spawn_def
  aircraft_init_def tower_new_def tower_aenter_def queue_full_def data_msg_def bye_msg_def
  on_message_counts is_bye_def tick_frame tick_status_neq_bye Let_def

lemmas ex_simps = ex_run_def ex_window_def ex_drain_def ex_drain_open_def one_aircraft_def














section \<open>Orchestration\<close>











section \<open>The tower's handling of BYE and of a timeout\<close>

text \<open>
  Claim C7. Popping a BYE message only adds one to \<open>byes\<close>: the tower is otherwise
  unchanged (\<open>processed\<close>, \<open>rejected\<close> and the rows of the log are as before), whatever
  \<^verbatim>\<open>validate\<close> would say of the message, and the step of \<^verbatim>\<open>run\<close> that pops it
  changes nothing else than the queue, this counter and the place in the loop.
\<close>

theorem bye_only_counted:
  assumes "status msg = ''BYE''" and "\<not> killed s" and "tpc s = Waiting"
    and "queue s = msg # rest"
  shows "on_message t msg = t\<lparr>byes := byes t + 1\<rparr> \<and>
         byes (on_message t msg) = byes t + 1 \<and>
         processed (on_message t msg) = processed t \<and>
         rejected (on_message t msg) = rejected t \<and>
         writer (on_message t msg) = writer t \<and>
         step Poll s = s\<lparr>queue := rest, twr := (twr s)\<lparr>byes := byes (twr s) + 1\<rparr>, tpc := LoopTest\<rparr>"
  using assms by (simp add: on_message_def step_def tower_poll_def)

theorem bye_only_counted_witness:
  "status (bye_msg 1 ''t2'') = ''BYE'' \<and> validate (bye_msg 1 ''t2'') \<and>
   \<not> killed (exec [Plane 0 ''t2'', Poll] (start_drain (spawn one_aircraft gen_half))) \<and>
   tpc (exec [Plane 0 ''t2'', Poll] (start_drain (spawn one_aircraft gen_half))) = Waiting \<and>
   queue (exec [Plane 0 ''t2'', Poll] (start_drain (spawn one_aircraft gen_half))) = [bye_msg 1 ''t2''] \<and>
   on_message ex_tower (bye_msg 1 ''t2'') = ex_tower\<lparr>byes := 1\<rparr> \<and>
   processed (on_message ex_tower (bye_msg 1 ''t2'')) = 0 \<and>
   rejected (on_message ex_tower (bye_msg 1 ''t2'')) = 0 \<and>
   writer (on_message ex_tower (bye_msg 1 ''t2'')) = Some [] \<and>
   twr (step Poll (exec [Plane 0 ''t2'', Poll] (start_drain (spawn one_aircraft gen_half)))) =
     (tower_new (Some ''atm_log.csv''))\<lparr>byes := 1\<rparr>"
proof -
  let ?s = "exec [Plane 0 ''t2'', Poll] (start_drain (spawn one_aircraft gen_half))"
  have a: "status (bye_msg 1 ''t2'') = ''BYE''" by (simp add: bye_msg_def)
  have b: "\<not> killed ?s" by (simp add: one_aircraft_def run_simps)
  have c: "tpc ?s = Waiting" by (simp add: one_aircraft_def run_simps)
  have d: "queue ?s = bye_msg 1 ''t2'' # []" by (simp add: one_aircraft_def run_simps)
  have e: "validate (bye_msg 1 ''t2'')" by (simp add: validate_def bye_msg_def)
  have f: "twr ?s = tower_new (Some ''atm_log.csv'')" by (simp add: one_aircraft_def run_simps)
  from bye_only_counted [OF a b c d, of ex_tower] a b c d e f
  show ?thesis by (simp add: ex_tower_def CONFIG_def tower_new_def)
qed

text \<open>
  Claim C8. A timeout of the pop changes no counter, no log row and no queue: the tower
  is only back at its loop test (if it was waiting); nothing else in the system changes.
\<close>

theorem timeout_only_retries:
  "step PopTimeout s =
     s\<lparr>tpc := (if tpc s = Waiting \<and> \<not> killed s then LoopTest else tpc s)\<rparr> \<and>
   twr (step PopTimeout s) = twr s \<and> queue (step PopTimeout s) = queue s \<and>
   sent (step PopTimeout s) = sent s \<and> planes (step PopTimeout s) = planes s \<and>
   running (step PopTimeout s) = running s \<and>
   processed (twr (step PopTimeout s)) = processed (twr s) \<and>
   rejected (twr (step PopTimeout s)) = rejected (twr s) \<and>
   byes (twr (step PopTimeout s)) = byes (twr s) \<and>
   writer (twr (step PopTimeout s)) = writer (twr s)"
  by (simp add: step_def pop_timeout_def)

section \<open>The random walk\<close>

lemma aircraft_init_pc: "pc (aircraft_init gen i) = Ready"
  by (simp add: aircraft_init_def Let_def)

lemma gen_edge_range: "0 \<le> gen_edge seed k \<and> gen_edge seed k < 1"
  by (simp add: gen_edge_def)

lemma uniform_edge: "uniform (- 5) 5 (1 / 2 - 1 / 2 ^ 53) = - (1 / 2 ^ 50)"
proof -
  have a: "fl (5 - - 5) = 10" by (simp add: fl_numeral)
  have b: "fl (10 * (1 / 2 - 1 / 2 ^ 53)) = 5 - 1 / 2 ^ 50" by (rule fl_edge_product)
  have c: "(- 5 + (5 - 1 / 2 ^ 50) :: real) = - (1 / 2 ^ 50)" by simp
  show ?thesis by (simp only: uniform_def a b c fl_tiny)
qed

lemma float_mod_edge: "float_mod (- (1 / 2 ^ 50)) 360 = 360"
proof -
  have "\<lceil>- (1 / 2 ^ 50) / 360 :: real\<rceil> = 0" by (simp add: ceiling_eq_iff)
  then have m: "c_fmod (- (1 / 2 ^ 50)) 360 = - (1 / 2 ^ 50)" by (simp add: c_fmod_def)
  have n: "(- (1 / 2 ^ 50) \<noteq> (0::real)) = True" and l: "(- (1 / 2 ^ 50) < (0::real)) = True"
    and z: "((360::real) < 0) = False"
    by simp_all
  show ?thesis
    by (simp only: float_mod_def Let_def m n l z fl_edge_wrap if_True simp_thms)
qed

lemma tick_edge: "hdg (fst (tick (aircraft_init gen_edge 1))) = 360"
proof -
  have h0: "uniform 0 360 0 = 0" by (simp add: uniform_def fl_0)
  have "hdg (fst (tick (aircraft_init gen_edge 1))) =
      float_mod (fl (uniform 0 360 0 + uniform (- 5) 5 (1 / 2 - 1 / 2 ^ 53))) 360"
    by (simp add: tick_def aircraft_init_def gen_edge_def Let_def)
  also have "\<dots> = float_mod (fl (- (1 / 2 ^ 50))) 360" by (simp only: h0 uniform_edge add_0)
  also have "\<dots> = 360" by (simp only: fl_tiny float_mod_edge)
  finally show ?thesis .
qed

text \<open>
  Claim C9, as stated, fails on the heading: with the initial heading draw 0.0 and the
  first heading perturbation drawn as the float just below one half, the sum is
  \<open>- 2^-50\<close>, and Python's \<^verbatim>\<open>%\<close> returns 360.0 for it, not a value below 360. It is the
  heading of the first message of aircraft 1, a data message.
\<close>

theorem heading_reaches_360_counterexample:
  "0 \<le> gen_edge 7331 9 \<and> gen_edge 7331 9 < 1 \<and>
   hdg (fst (tick (aircraft_init gen_edge 1))) = 360 \<and>
   \<not> hdg (fst (tick (aircraft_init gen_edge 1))) < 360 \<and>
   heading_deg (hd (sent (exec [Plane 0 ''t1''] (spawn one_aircraft gen_edge)))) = 360 \<and>
   is_data (hd (sent (exec [Plane 0 ''t1''] (spawn one_aircraft gen_edge))))"
proof -
  have "sent (exec [Plane 0 ''t1''] (spawn one_aircraft gen_edge)) =
      [data_msg (fst (tick (aircraft_init gen_edge 1))) (snd (tick (aircraft_init gen_edge 1))) ''t1'']"
    by (simp add: one_aircraft_def exec_def step_def plane_step_def spawn_def aircraft_task_def
        queue_full_def Let_def aircraft_init_pc)
  then show ?thesis
    using tick_status [of "fst (tick (aircraft_init gen_edge 1))" "aircraft_init gen_edge 1" "''t1''"]
    by (simp add: tick_edge gen_edge_def data_msg_def)
qed

lemma perturbations:
  assumes "\<forall>k. 0 \<le> rng p k \<and> rng p k < 1"
  shows "\<bar>uniform (- fl 0.05) (fl 0.05) (rng p k)\<bar> \<le> fl 0.05"
    and "\<bar>uniform (- 400) 400 (rng p k)\<bar> \<le> 400"
    and "\<bar>uniform (- 10) 10 (rng p k)\<bar> \<le> 10"
    and "\<bar>uniform (- 5) 5 (rng p k)\<bar> \<le> 5"
proof -
  from assms have r: "0 \<le> rng p k" "rng p k < 1" by simp_all
  show "\<bar>uniform (- fl 0.05) (fl 0.05) (rng p k)\<bar> \<le> fl 0.05"
    using r by (intro uniform_sym representable_fl fl_nonneg) simp_all
  show "\<bar>uniform (- 400) 400 (rng p k)\<bar> \<le> 400"
    using r by (intro uniform_sym representable_numeral) simp_all
  show "\<bar>uniform (- 10) 10 (rng p k)\<bar> \<le> 10"
    using r by (intro uniform_sym representable_numeral) simp_all
  show "\<bar>uniform (- 5) 5 (rng p k)\<bar> \<le> 5"
    using r by (intro uniform_sym representable_numeral) simp_all
qed

lemma tick_fields:
  "lat (fst (tick p)) = fl (lat p + uniform (- fl 0.05) (fl 0.05) (rng p (drawn p)))"
  "lon (fst (tick p)) = fl (lon p + uniform (- fl 0.05) (fl 0.05) (rng p (drawn p + 1)))"
  "alt (fst (tick p)) = max 0 (min (fl (alt p + uniform (- 400) 400 (rng p (drawn p + 2)))) 60000)"
  "spd (fst (tick p)) = max 0 (min (fl (spd p + uniform (- 10) 10 (rng p (drawn p + 3)))) 700)"
  "hdg (fst (tick p)) = float_mod (fl (hdg p + uniform (- 5) 5 (rng p (drawn p + 4)))) 360"
  by (simp_all add: tick_def Let_def)

lemma tick_walk:
  assumes "\<forall>k. 0 \<le> rng p k \<and> rng p k < 1"
  shows "\<exists>dlat dlon dalt dspd dhdg.
           \<bar>dlat\<bar> \<le> fl 0.05 \<and> \<bar>dlon\<bar> \<le> fl 0.05 \<and> \<bar>dalt\<bar> \<le> 400 \<and> \<bar>dspd\<bar> \<le> 10 \<and> \<bar>dhdg\<bar> \<le> 5 \<and>
           lat (fst (tick p)) = fl (lat p + dlat) \<and>
           lon (fst (tick p)) = fl (lon p + dlon) \<and>
           alt (fst (tick p)) = max 0 (min (fl (alt p + dalt)) 60000) \<and>
           spd (fst (tick p)) = max 0 (min (fl (spd p + dspd)) 700) \<and>
           hdg (fst (tick p)) = float_mod (fl (hdg p + dhdg)) 360"
  using perturbations [OF assms] tick_fields [of p] by blast

lemma tick_ranges:
  "0 \<le> alt (fst (tick p)) \<and> alt (fst (tick p)) \<le> 60000 \<and>
   0 \<le> spd (fst (tick p)) \<and> spd (fst (tick p)) \<le> 700 \<and>
   0 \<le> hdg (fst (tick p)) \<and> hdg (fst (tick p)) \<le> 360"
  using float_mod_360 by (simp add: tick_fields)

lemma aircraft_task_tick:
  "pc p = Ready \<Longrightarrow>
     snd (aircraft_task now True False p) = Some (data_msg (fst (tick p)) (snd (tick p)) now)"
  by (simp add: aircraft_task_def Let_def)

lemma sent_data_bounded:
  "m \<in> set (sent (snd (main cfg gen open_ok window drain))) \<Longrightarrow> is_data m \<Longrightarrow> walk_bounded m"
  using sys_inv_main [of cfg gen open_ok window drain] is_data_not_bye [of m]
  by (auto simp: sys_inv_def inv_sent_def)

text \<open>
  Claim C9, amended. With every draw in [0,1), one pass of the loop perturbs latitude and
  longitude by at most the float 0.05, altitude by at most 400, speed by at most 10 and
  heading by at most 5 before clamping; after the update the altitude is in [0,60000],
  the speed in [0,700] and the heading in [0,360], the value 360 included; the data
  message of that pass carries these values, and every data message sent in any run of
  \<^verbatim>\<open>main\<close> has altitude, speed and heading in these ranges.
\<close>

theorem random_walk_clamped:
  assumes "\<forall>k. 0 \<le> rng p k \<and> rng p k < 1"
  shows "(\<exists>dlat dlon dalt dspd dhdg.
           \<bar>dlat\<bar> \<le> fl 0.05 \<and> \<bar>dlon\<bar> \<le> fl 0.05 \<and> \<bar>dalt\<bar> \<le> 400 \<and> \<bar>dspd\<bar> \<le> 10 \<and> \<bar>dhdg\<bar> \<le> 5 \<and>
           lat (fst (tick p)) = fl (lat p + dlat) \<and>
           lon (fst (tick p)) = fl (lon p + dlon) \<and>
           alt (fst (tick p)) = max 0 (min (fl (alt p + dalt)) 60000) \<and>
           spd (fst (tick p)) = max 0 (min (fl (spd p + dspd)) 700) \<and>
           hdg (fst (tick p)) = float_mod (fl (hdg p + dhdg)) 360) \<and>
         0 \<le> alt (fst (tick p)) \<and> alt (fst (tick p)) \<le> 60000 \<and>
         0 \<le> spd (fst (tick p)) \<and> spd (fst (tick p)) \<le> 700 \<and>
         0 \<le> hdg (fst (tick p)) \<and> hdg (fst (tick p)) \<le> 360 \<and>
         (pc p = Ready \<longrightarrow>
            snd (aircraft_task now True False p) =
              Some (data_msg (fst (tick p)) (snd (tick p)) now)) \<and>
         latitude (data_msg (fst (tick p)) st now) = lat (fst (tick p)) \<and>
         longitude (data_msg (fst (tick p)) st now) = lon (fst (tick p)) \<and>
         altitude_ft (data_msg (fst (tick p)) st now) = alt (fst (tick p)) \<and>
         speed_kt (data_msg (fst (tick p)) st now) = spd (fst (tick p)) \<and>
         heading_deg (data_msg (fst (tick p)) st now) = hdg (fst (tick p)) \<and>
         (\<forall>m \<in> set (sent (snd (main cfg gen open_ok window drain))).
            is_data m \<longrightarrow> walk_bounded m)"
proof -
  have msg: "latitude (data_msg (fst (tick p)) st now) = lat (fst (tick p)) \<and>
         longitude (data_msg (fst (tick p)) st now) = lon (fst (tick p)) \<and>
         altitude_ft (data_msg (fst (tick p)) st now) = alt (fst (tick p)) \<and>
         speed_kt (data_msg (fst (tick p)) st now) = spd (fst (tick p)) \<and>
         heading_deg (data_msg (fst (tick p)) st now) = hdg (fst (tick p))"
    by (simp add: data_msg_def)
  from tick_walk [OF assms] tick_ranges [of p] aircraft_task_tick [of p now] msg
    sent_data_bounded [of _ cfg gen open_ok window drain]
  show ?thesis by blast
qed

theorem random_walk_clamped_witness:
  "(\<forall>k. 0 \<le> rng (aircraft_init gen_half 1) k \<and> rng (aircraft_init gen_half 1) k < 1) \<and>
   pc (aircraft_init gen_half 1) = Ready \<and>
   0 \<le> alt (fst (tick (aircraft_init gen_half 1))) \<and>
   alt (fst (tick (aircraft_init gen_half 1))) \<le> 60000 \<and>
   0 \<le> spd (fst (tick (aircraft_init gen_half 1))) \<and>
   spd (fst (tick (aircraft_init gen_half 1))) \<le> 700 \<and>
   0 \<le> hdg (fst (tick (aircraft_init gen_half 1))) \<and>
   hdg (fst (tick (aircraft_init gen_half 1))) \<le> 360 \<and>
   snd (aircraft_task ''t1'' True False (aircraft_init gen_half 1)) =
     Some (data_msg (fst (tick (aircraft_init gen_half 1)))
        (snd (tick (aircraft_init gen_half 1))) ''t1'') \<and>
   hd (sent ex_run) \<in> set (sent ex_run) \<and> is_data (hd (sent ex_run)) \<and>
   walk_bounded (hd (sent ex_run))"
proof -
  have a: "\<forall>k. 0 \<le> rng (aircraft_init gen_half 1) k \<and> rng (aircraft_init gen_half 1) k < 1"
    by (simp add: aircraft_init_def gen_half_def Let_def)
  have b: "pc (aircraft_init gen_half 1) = Ready" by (rule aircraft_init_pc)
  have c: "hd (sent ex_run) \<in> set (sent ex_run)" by (simp add: ex_simps run_simps)
  have d: "is_data (hd (sent ex_run))"
    using tick_status [of _ "aircraft_init gen_half 1"]
    by (simp add: ex_simps run_simps is_data_def)
  from random_walk_clamped [OF a, of "''t1''" _ one_aircraft gen_half True ex_window ex_drain]
    a b c d
  show ?thesis by (simp add: ex_run_def)
qed

end
